theory Spec2Isabelle
  imports Main "HOL-Library.Sublist"
begin

section \<open>Strings of the viewer\<close>

text \<open>
  The viewer of \<^verbatim>\<open>scripts/debug-viewer.py\<close> works on Python \<^verbatim>\<open>str\<close> values. A
  \<^verbatim>\<open>str\<close> is the list of its Unicode code points, and \<^verbatim>\<open>k in s\<close> is \<^const>\<open>sublist\<close>.
  \<open>lit\<close> gives the code points of a literal of the source. Tag names and stream names
  are names of the program and stay Isabelle strings.
\<close>

type_synonym pystr = "nat list"

definition cp :: "char \<Rightarrow> nat" where
  "cp c = of_char c"

definition lit :: "string \<Rightarrow> pystr" where
  "lit s = map cp s"

definition ESC :: nat where
  "ESC = 0x1B"

definition NL :: nat where
  "NL = 0x0A"

text \<open>
  \<^verbatim>\<open>str.isspace\<close> on one character, which decides what \<^verbatim>\<open>str.strip()\<close> and
  \<^verbatim>\<open>str.rstrip()\<close> remove: the ASCII controls 9 to 13 and 28 to 31, the space, and
  the white space of Unicode beyond ASCII.
\<close>

definition isspace :: "nat \<Rightarrow> bool" where
  "isspace c =
     ((9 \<le> c \<and> c \<le> 13) \<or> (28 \<le> c \<and> c \<le> 32) \<or> c = 0x85 \<or> c = 0xA0 \<or> c = 0x1680
      \<or> (0x2000 \<le> c \<and> c \<le> 0x200A) \<or> c = 0x2028 \<or> c = 0x2029 \<or> c = 0x202F
      \<or> c = 0x205F \<or> c = 0x3000)"

definition str_rstrip :: "pystr \<Rightarrow> pystr" where
  "str_rstrip s = rev (dropWhile isspace (rev s))"

definition str_strip :: "pystr \<Rightarrow> pystr" where
  "str_strip s = str_rstrip (dropWhile isspace s)"

text \<open>
  Two functions of the Python runtime depend on the tables of its Unicode database,
  which are no part of the repository: \<^verbatim>\<open>str.lower\<close>, and the characters that the
  regular expression class \<^verbatim>\<open>\d\<close> matches. The viewer's functions take them as the
  parameter \<open>U\<close>.
\<close>

record unicode =
  str_lower :: "pystr \<Rightarrow> pystr"
  re_digit :: "nat \<Rightarrow> bool"

text \<open>
  What is used of these tables where a theorem speaks of a given ASCII text:
  \<^verbatim>\<open>str.lower\<close> maps an ASCII text letter by letter, it maps every ASCII stretch of a
  text in place (the characters around it never change how an ASCII character is
  lowered), and the ASCII characters that \<^verbatim>\<open>\d\<close> matches are the digits 0 to 9.
\<close>

definition is_ascii :: "nat \<Rightarrow> bool" where
  "is_ascii c = (c < 128)"

definition ascii_lower :: "nat \<Rightarrow> nat" where
  "ascii_lower c = (if 65 \<le> c \<and> c \<le> 90 then c + 32 else c)"

definition python_unicode :: "unicode \<Rightarrow> bool" where
  "python_unicode U =
     ((\<forall>s. list_all is_ascii s \<longrightarrow> str_lower U s = map ascii_lower s) \<and>
      (\<forall>k s. list_all is_ascii k \<and> sublist k s
              \<longrightarrow> sublist (map ascii_lower k) (str_lower U s)) \<and>
      (\<forall>c. is_ascii c \<longrightarrow> re_digit U c = (48 \<le> c \<and> c \<le> 57)))"

text \<open>
  The tables cut down to ASCII. They have the properties above, and on ASCII text every
  table with these properties gives what they give.
\<close>

definition ascii_unicode :: unicode where
  "ascii_unicode = \<lparr>str_lower = map ascii_lower, re_digit = (\<lambda>c. 48 \<le> c \<and> c \<le> 57)\<rparr>"

section \<open>Stripping ANSI colour codes\<close>

text \<open>
  \<^verbatim>\<open>ANSI_RE = re.compile(r'\x1b\[[0-9;]*m')\<close>. The class \<^verbatim>\<open>[0-9;]\<close> does not contain
  \<^verbatim>\<open>m\<close>, so the greedy star followed by \<^verbatim>\<open>m\<close> matches exactly when the character
  after the longest run of parameter characters is \<^verbatim>\<open>m\<close>. \<open>ANSI_RE_match s\<close> is the
  match of the pattern at the start of \<open>s\<close>: \<open>Some rest\<close> with the text after the match.
\<close>

definition is_param :: "nat \<Rightarrow> bool" where
  "is_param c = (c \<in> set (lit ''0123456789;''))"

definition ANSI_RE_match :: "pystr \<Rightarrow> pystr option" where
  "ANSI_RE_match s =
     (case s of
        e # b # t \<Rightarrow>
          (if e = ESC \<and> b = cp CHR ''[''
           then (case dropWhile is_param t of
                   [] \<Rightarrow> None
                 | m # rest \<Rightarrow> if m = cp CHR ''m'' then Some rest else None)
           else None)
      | _ \<Rightarrow> None)"

text \<open>
  \<^verbatim>\<open>ANSI_RE.sub('', text)\<close>: one scan from the left; a match is dropped and the scan goes
  on behind it, any other character is kept.
\<close>

function strip_ansi :: "pystr \<Rightarrow> pystr" where
  "strip_ansi [] = []"
| "strip_ansi (c # cs) =
     (case ANSI_RE_match (c # cs) of
        Some rest \<Rightarrow> strip_ansi rest
      | None \<Rightarrow> c # strip_ansi cs)"
  by pat_completeness auto
termination
proof (relation "measure length")
  show "wf (measure length)" by simp
next
  fix c cs rest
  assume m: "ANSI_RE_match (c # cs) = Some rest"
  then obtain b t where cs: "cs = b # t" and d: "dropWhile is_param t = cp CHR ''m'' # rest"
    by (auto simp: ANSI_RE_match_def split: list.splits if_splits)
  have "length (dropWhile is_param t) \<le> length t"
    by (rule length_dropWhile_le)
  with d cs show "(rest, c # cs) \<in> measure length" by simp
next
  fix c :: nat and cs :: pystr
  show "(cs, c # cs) \<in> measure length" by simp
qed

text \<open>
  The words of the specification: an escape sequence is ESC, \<^verbatim>\<open>[\<close>, then digits and
  semicolons, then \<^verbatim>\<open>m\<close>.
\<close>

definition is_ansi_seq :: "pystr \<Rightarrow> bool" where
  "is_ansi_seq q =
     (case q of
        e # b # t \<Rightarrow> e = ESC \<and> b = cp CHR ''['' \<and> t \<noteq> [] \<and> last t = cp CHR ''m''
                     \<and> list_all is_param (butlast t)
      | _ \<Rightarrow> False)"

definition starts_with_ansi :: "pystr \<Rightarrow> bool" where
  "starts_with_ansi s = list_ex (\<lambda>q. is_ansi_seq q) (prefixes s)"

definition has_ansi :: "pystr \<Rightarrow> bool" where
  "has_ansi s = list_ex starts_with_ansi (suffixes s)"

text \<open>Every ESC of the string begins a complete escape sequence.\<close>

definition escapes_complete :: "pystr \<Rightarrow> bool" where
  "escapes_complete s =
     list_all (\<lambda>t. case t of [] \<Rightarrow> True | c # _ \<Rightarrow> c = ESC \<longrightarrow> starts_with_ansi t)
       (suffixes s)"

section \<open>The viewer's state\<close>

text \<open>
  The Tk text widget holds characters, each with its set of tags, and a final newline of
  its own that cannot be deleted. \<open>text_widget\<close> (the attribute \<^verbatim>\<open>self.text\<close>) is the
  content before that final newline and \<open>end_tags\<close> are the tags on it. The selection
  is the tag \<^verbatim>\<open>sel\<close>.
\<close>

record tchar =
  ch :: nat
  tags :: "string list"

record viewer =
  running :: bool
  auto_scroll_var :: bool
  filter_var :: pystr
  text_widget :: "tchar list"
  end_tags :: "string list"
  clipboard :: pystr

definition init_viewer :: "pystr \<Rightarrow> viewer" where
  "init_viewer clip =
     \<lparr>running = True, auto_scroll_var = True, filter_var = [], text_widget = [],
      end_tags = [], clipboard = clip\<rparr>"

section \<open>Classification\<close>

text \<open>
  \<^verbatim>\<open>re.match(r'^\d{4}-\d{2}-\d{2}', line)\<close>: the pattern is tried at the start of the line
  only.
\<close>

definition match_date :: "unicode \<Rightarrow> pystr \<Rightarrow> bool" where
  "match_date U line =
     (case line of
        y1 # y2 # y3 # y4 # d1 # m1 # m2 # d2 # a1 # a2 # _ \<Rightarrow>
          re_digit U y1 \<and> re_digit U y2 \<and> re_digit U y3 \<and> re_digit U y4
          \<and> d1 = cp CHR ''-'' \<and> re_digit U m1 \<and> re_digit U m2
          \<and> d2 = cp CHR ''-'' \<and> re_digit U a1 \<and> re_digit U a2
      | _ \<Rightarrow> False)"

text \<open>\<^verbatim>\<open>any(k in s for k in keys)\<close>\<close>

definition any_in :: "pystr list \<Rightarrow> pystr \<Rightarrow> bool" where
  "any_in keys s = list_ex (\<lambda>k. sublist k s) keys"

text \<open>
  The tests of \<^verbatim>\<open>classify_line\<close> on the lowered line, in the order of the source
  (lines 143, 147, 151, 155, 159 and 163). The two glyphs of the success test are the
  check mark U+2713 and the check mark button U+2705.
\<close>

definition error_rule :: "pystr \<Rightarrow> bool" where
  "error_rule lower =
     any_in [lit ''error'', lit ''err:'', lit ''failed'', lit ''exception'', lit ''traceback'',
             lit ''unhandled''] lower"

definition warn_rule :: "pystr \<Rightarrow> bool" where
  "warn_rule lower = any_in [lit ''warn'', lit ''warning'', lit ''deprecated''] lower"

definition tool_rule :: "pystr \<Rightarrow> bool" where
  "tool_rule lower = (sublist (lit ''[chatbot]'') lower \<or> sublist (lit ''[tool'') lower)"

definition route_rule :: "pystr \<Rightarrow> bool" where
  "route_rule lower =
     any_in [lit ''get /'', lit ''post /'', lit ''patch /'', lit ''delete /'', lit ''put /''] lower"

definition success_rule :: "pystr \<Rightarrow> bool" where
  "success_rule lower =
     any_in [lit ''ready'', lit ''compiled'', lit ''success'', [0x2713], [0x2705]] lower"

definition info_rule :: "pystr \<Rightarrow> bool" where
  "info_rule lower = any_in [lit ''compiling'', lit ''building'', lit ''hmr''] lower"

definition classify_line :: "unicode \<Rightarrow> viewer \<Rightarrow> pystr \<Rightarrow> string \<Rightarrow> string" where
  "classify_line U self line stream =
     (if stream = ''stderr'' then ''error''
      else
        let lower = str_lower U line in
        if error_rule lower then ''error''
        else if warn_rule lower then ''warn''
        else if tool_rule lower then ''tool''
        else if route_rule lower then ''route''
        else if success_rule lower then ''success''
        else if info_rule lower then ''info''
        else if match_date U line then ''dim''
        else '''')"

section \<open>The text widget\<close>

text \<open>
  The operations of the Tk text widget that the viewer calls. Lines are numbered from 1
  and end at a newline; the index \<^verbatim>\<open>end-1c\<close> is the widget's own final newline, so its
  line number is the number of newlines in the content plus one.
\<close>

definition index_end_1c_line :: "viewer \<Rightarrow> nat" where
  "index_end_1c_line v = length (filter (\<lambda>c. ch c = NL) (text_widget v)) + 1"

text \<open>
  \<^verbatim>\<open>insert(tk.END, chars, tag)\<close> puts the characters before the final newline with
  exactly the given tag. Without a tag the new characters get the tags that are on both
  neighbours of the insertion point: the last character of the content and the final
  newline.
\<close>

definition text_insert_end_tagged :: "viewer \<Rightarrow> pystr \<Rightarrow> string \<Rightarrow> viewer" where
  "text_insert_end_tagged v chars tag =
     v\<lparr>text_widget := text_widget v @ map (\<lambda>c. \<lparr>ch = c, tags = [tag]\<rparr>) chars\<rparr>"

definition text_insert_end :: "viewer \<Rightarrow> pystr \<Rightarrow> viewer" where
  "text_insert_end v chars =
     (let inherited =
            (case text_widget v of
               [] \<Rightarrow> []
             | _ # _ \<Rightarrow> filter (\<lambda>t. t \<in> set (end_tags v)) (tags (last (text_widget v))))
      in v\<lparr>text_widget := text_widget v @ map (\<lambda>c. \<lparr>ch = c, tags = inherited\<rparr>) chars\<rparr>)"

text \<open>
  \<open>drop_lines n\<close> removes the first \<open>n\<close> lines with their newlines.
  \<^verbatim>\<open>delete("1.0", f"{k}.0")\<close> removes everything before the start of line \<open>k\<close>, that
  is the first \<open>k - 1\<close> lines; for \<open>k \<le> 1\<close> the range is empty.
\<close>

fun drop_lines :: "nat \<Rightarrow> tchar list \<Rightarrow> tchar list" where
  "drop_lines 0 cs = cs"
| "drop_lines (Suc n) [] = []"
| "drop_lines (Suc n) (c # cs) = (if ch c = NL then drop_lines n cs else drop_lines (Suc n) cs)"

definition text_delete_to_line :: "viewer \<Rightarrow> nat \<Rightarrow> viewer" where
  "text_delete_to_line v k = v\<lparr>text_widget := drop_lines (k - 1) (text_widget v)\<rparr>"

datatype tcl_error = TclError

text \<open>
  \<^verbatim>\<open>get(tk.SEL_FIRST, tk.SEL_LAST)\<close>: the text from the first character tagged
  \<^verbatim>\<open>sel\<close> to the last one; a \<^verbatim>\<open>TclError\<close> when no character has the tag.
\<close>

definition is_selected :: "tchar \<Rightarrow> bool" where
  "is_selected c = (''sel'' \<in> set (tags c))"

definition text_get_sel :: "viewer \<Rightarrow> tcl_error + pystr" where
  "text_get_sel v =
     (let cs = text_widget v @ [\<lparr>ch = NL, tags = end_tags v\<rparr>]
      in if list_ex is_selected cs
         then Inr (map ch (rev (dropWhile (\<lambda>c. \<not> is_selected c)
                                 (rev (dropWhile (\<lambda>c. \<not> is_selected c) cs)))))
         else Inl TclError)"

section \<open>The viewer's operations\<close>

text \<open>
  The inner function \<^verbatim>\<open>_insert\<close> of \<^verbatim>\<open>append_line\<close>. It is handed to the Tk main
  loop with \<^verbatim>\<open>root.after(0, _insert)\<close>; here it runs at once. \<^verbatim>\<open>see(tk.END)\<close> moves
  the viewport only, which the state does not hold.
\<close>

definition append_line_insert :: "viewer \<Rightarrow> pystr \<Rightarrow> string \<Rightarrow> viewer" where
  "append_line_insert v clean tag =
     (let v1 = (if tag \<noteq> [] then text_insert_end_tagged v (clean @ [NL]) tag
                else text_insert_end v (clean @ [NL]));
          line_count = index_end_1c_line v1
      in if line_count > 5000 then text_delete_to_line v1 (line_count - 5000) else v1)"

definition append_line :: "unicode \<Rightarrow> viewer \<Rightarrow> pystr \<Rightarrow> string \<Rightarrow> viewer" where
  "append_line U v line stream =
     (let clean = strip_ansi line;
          filter_text = str_lower U (str_strip (filter_var v))
      in if filter_text \<noteq> [] \<and> \<not> sublist filter_text (str_lower U clean) then v
         else append_line_insert v clean (classify_line U v clean stream))"

text \<open>
  The body of the reading loop of \<^verbatim>\<open>tail_file\<close>, given what \<^verbatim>\<open>f.readline()\<close>
  returned: the empty string when nothing new is in the file, else the text up to and
  with the next newline.
\<close>

definition tail_file_step :: "unicode \<Rightarrow> viewer \<Rightarrow> string \<Rightarrow> pystr \<Rightarrow> viewer" where
  "tail_file_step U v stream line =
     (if line \<noteq> [] then append_line U v (str_rstrip line) stream else v)"

text \<open>
  \<^verbatim>\<open>copy_selection\<close>: the body of the \<^verbatim>\<open>try\<close> block, and the handler that swallows a
  \<^verbatim>\<open>TclError\<close>.
\<close>

definition copy_selection_try :: "viewer \<Rightarrow> tcl_error + viewer" where
  "copy_selection_try v =
     (case text_get_sel v of
        Inl e \<Rightarrow> Inl e
      | Inr selected \<Rightarrow> Inr (v\<lparr>clipboard := selected\<rparr>))"

definition copy_selection :: "viewer \<Rightarrow> tcl_error + viewer" where
  "copy_selection v =
     (case copy_selection_try v of
        Inl TclError \<Rightarrow> Inr v
      | Inr v' \<Rightarrow> Inr v')"

definition select_all :: "viewer \<Rightarrow> viewer" where
  "select_all v =
     v\<lparr>text_widget := map (\<lambda>c. c\<lparr>tags := ''sel'' # removeAll ''sel'' (tags c)\<rparr>) (text_widget v),
       end_tags := ''sel'' # removeAll ''sel'' (end_tags v)\<rparr>"

definition clear_log :: "viewer \<Rightarrow> viewer" where
  "clear_log v = v\<lparr>text_widget := []\<rparr>"

definition on_close :: "viewer \<Rightarrow> viewer" where
  "on_close v = v\<lparr>running := False\<rparr>"

text \<open>
  What can happen to a running viewer: a tail thread gets a text from \<^verbatim>\<open>readline\<close>,
  the user types into the filter box, toggles auto-scroll, or picks one of the commands.
\<close>

datatype event =
    Read string pystr
  | SetFilter pystr
  | SetAutoScroll bool
  | ClearLog
  | SelectAll
  | CopySelection
  | OnClose

fun viewer_step :: "unicode \<Rightarrow> viewer \<Rightarrow> event \<Rightarrow> viewer" where
  "viewer_step U v (Read stream line) = (if running v then tail_file_step U v stream line else v)"
| "viewer_step U v (SetFilter f) = v\<lparr>filter_var := f\<rparr>"
| "viewer_step U v (SetAutoScroll b) = v\<lparr>auto_scroll_var := b\<rparr>"
| "viewer_step U v ClearLog = clear_log v"
| "viewer_step U v SelectAll = select_all v"
| "viewer_step U v CopySelection = (case copy_selection v of Inl e \<Rightarrow> v | Inr v' \<Rightarrow> v')"
| "viewer_step U v OnClose = on_close v"

definition viewer_run :: "unicode \<Rightarrow> viewer \<Rightarrow> event list \<Rightarrow> viewer" where
  "viewer_run U v es = foldl (viewer_step U) v es"

text \<open>The lines on display: the number of complete lines in the widget, and their text.\<close>

definition buffer_size :: "viewer \<Rightarrow> nat" where
  "buffer_size v = length (filter (\<lambda>c. ch c = NL) (text_widget v))"

definition buffer_text :: "viewer \<Rightarrow> pystr" where
  "buffer_text v = map ch (text_widget v)"

text \<open>The tags that \<^verbatim>\<open>_insert\<close> leaves on the characters it puts into the widget.\<close>

definition inserted_tags :: "viewer \<Rightarrow> string \<Rightarrow> string list" where
  "inserted_tags v tag =
     (if tag \<noteq> [] then [tag]
      else case text_widget v of
             [] \<Rightarrow> []
           | _ # _ \<Rightarrow> filter (\<lambda>t. t \<in> set (end_tags v)) (tags (last (text_widget v))))"

text \<open>
  The lines handed to \<^verbatim>\<open>append_line\<close> one after the other, each with its stream.
\<close>

definition append_lines :: "unicode \<Rightarrow> viewer \<Rightarrow> (pystr \<times> string) list \<Rightarrow> viewer" where
  "append_lines U v ls = foldl (\<lambda>v (line, stream). append_line U v line stream) v ls"

text \<open>No character of the widget, its final newline included, is selected.\<close>

definition selection_empty :: "viewer \<Rightarrow> bool" where
  "selection_empty v = (\<not> list_ex is_selected (text_widget v) \<and> ''sel'' \<notin> set (end_tags v))"

definition entry :: "pystr \<Rightarrow> string \<Rightarrow> tchar list" where
  "entry clean tag = map (\<lambda>c. \<lparr>ch = c, tags = (if tag \<noteq> [] then [tag] else [])\<rparr>) (clean @ [NL])"

section \<open>The tail thread and its log file\<close>

text \<open>
  The log file is its text as Python's text layer hands it over (decoded, line ends
  translated to the newline), or nothing while the file does not exist. Other processes
  only append to it. The thread that runs \<^verbatim>\<open>tail_file\<close> is at one of four places:
  in the waiting loop, in the reading loop with its read cursor, returned, or ended by an
  exception.
\<close>

datatype py_error = OSError | UnicodeDecodeError





text \<open>
  The thread and the writer of the log take turns in any order: the writer appends a text
  to the file, which creates it when it is not there, or the thread has a turn.
\<close>

datatype tail_event = Write pystr | Turn "py_error option"




fun written :: "tail_event list \<Rightarrow> pystr list" where
  "written [] = []"
| "written (Write t # es) = butlast t # written es"
| "written (Turn io # es) = written es"


section \<open>Stripping: what is removed\<close>

lemma not_param_m: "\<not> is_param (cp CHR ''m'')"
  by (simp add: is_param_def lit_def cp_def)

lemma ANSI_RE_match_seq:
  assumes "is_ansi_seq q"
  shows "ANSI_RE_match (q @ r) = Some r"
proof -
  from assms obtain t where q: "q = ESC # cp CHR ''['' # t" and t: "t \<noteq> []"
    and l: "last t = cp CHR ''m''" and p: "list_all is_param (butlast t)"
    by (auto simp: is_ansi_seq_def split: list.splits)
  from t l have t': "t = butlast t @ [cp CHR ''m'']"
    by (metis append_butlast_last_id)
  from p have "dropWhile is_param (butlast t) = []"
    by (simp add: list_all_iff)
  then have "dropWhile is_param (butlast t @ cp CHR ''m'' # r) = cp CHR ''m'' # r"
    using p by (simp add: dropWhile_append3 not_param_m)
  moreover have "t @ r = butlast t @ cp CHR ''m'' # r"
    using t' by (metis append_Cons append_Nil append_assoc)
  ultimately have "dropWhile is_param (t @ r) = cp CHR ''m'' # r"
    by (simp only:)
  then show ?thesis
    unfolding ANSI_RE_match_def q by simp
qed

lemma ANSI_RE_match_Some:
  assumes "ANSI_RE_match s = Some r"
  shows "\<exists>q. is_ansi_seq q \<and> s = q @ r"
proof -
  from assms obtain t where s: "s = ESC # cp CHR ''['' # t"
    and d: "dropWhile is_param t = cp CHR ''m'' # r"
    by (auto simp: ANSI_RE_match_def split: list.splits if_splits)
  let ?q = "ESC # cp CHR ''['' # takeWhile is_param t @ [cp CHR ''m'']"
  have "list_all is_param (takeWhile is_param t)"
    by (simp add: list_all_iff) (meson set_takeWhileD)
  then have "is_ansi_seq ?q"
    by (simp add: is_ansi_seq_def)
  moreover have "t = takeWhile is_param t @ cp CHR ''m'' # r"
    using d by (metis takeWhile_dropWhile_id)
  then have "s = ?q @ r"
    using s by simp
  ultimately show ?thesis by blast
qed

lemma starts_with_ansi_iff: "starts_with_ansi s \<longleftrightarrow> ANSI_RE_match s \<noteq> None"
proof
  assume "starts_with_ansi s"
  then obtain q where "prefix q s" "is_ansi_seq q"
    by (auto simp: starts_with_ansi_def list_ex_iff in_set_prefixes)
  then show "ANSI_RE_match s \<noteq> None"
    by (auto simp: prefix_def ANSI_RE_match_seq)
next
  assume "ANSI_RE_match s \<noteq> None"
  then obtain r where "ANSI_RE_match s = Some r" by auto
  then obtain q where "is_ansi_seq q" "s = q @ r"
    using ANSI_RE_match_Some by blast
  then show "starts_with_ansi s"
    by (auto simp: starts_with_ansi_def list_ex_iff in_set_prefixes)
qed

lemma has_ansi_Cons: "has_ansi (c # cs) \<longleftrightarrow> starts_with_ansi (c # cs) \<or> has_ansi cs"
  by (auto simp: has_ansi_def list_ex_iff)

lemma strip_ansi_keep:
  assumes "\<not> starts_with_ansi (c # cs)"
  shows "strip_ansi (c # cs) = c # strip_ansi cs"
  using assms by (simp add: starts_with_ansi_iff)

lemma strip_ansi_drop:
  assumes "is_ansi_seq q"
  shows "strip_ansi (q @ r) = strip_ansi r"
proof -
  from assms obtain c cs where "q = c # cs"
    by (auto simp: is_ansi_seq_def split: list.splits)
  with ANSI_RE_match_seq [OF assms, of r] show ?thesis by simp
qed

lemma strip_ansi_no_ansi: "\<not> has_ansi s \<Longrightarrow> strip_ansi s = s"
proof (induction s)
  case Nil
  show ?case by simp
next
  case (Cons c cs)
  then show ?case
    by (simp add: has_ansi_Cons starts_with_ansi_iff)
qed

lemma has_ansi_ESC: "has_ansi s \<Longrightarrow> ESC \<in> set s"
proof (induction s)
  case Nil
  then show ?case
    by (simp add: has_ansi_def starts_with_ansi_def is_ansi_seq_def)
next
  case (Cons c cs)
  show ?case
  proof (cases "starts_with_ansi (c # cs)")
    case True
    then have "c = ESC"
      by (auto simp: starts_with_ansi_iff ANSI_RE_match_def split: list.splits if_splits)
    then show ?thesis by simp
  next
    case False
    with Cons show ?thesis by (simp add: has_ansi_Cons)
  qed
qed

lemma escapes_complete_Cons:
  "escapes_complete (c # cs) \<longleftrightarrow> (c = ESC \<longrightarrow> starts_with_ansi (c # cs)) \<and> escapes_complete cs"
  by (auto simp: escapes_complete_def list_all_iff)

lemma escapes_complete_suffix:
  "escapes_complete (p @ r) \<Longrightarrow> escapes_complete r"
  by (induction p) (simp_all add: escapes_complete_Cons)

lemma strip_ansi_no_ESC: "escapes_complete s \<Longrightarrow> ESC \<notin> set (strip_ansi s)"
proof (induction s rule: strip_ansi.induct)
  case 1
  show ?case by simp
next
  case (2 c cs)
  show ?case
  proof (cases "ANSI_RE_match (c # cs)")
    case None
    then have "\<not> starts_with_ansi (c # cs)" by (simp add: starts_with_ansi_iff)
    with "2.prems" have "c \<noteq> ESC" "escapes_complete cs"
      by (auto simp: escapes_complete_Cons)
    with "2.IH"(1) [OF None] None show ?thesis by simp
  next
    case (Some rest)
    then obtain q where "c # cs = q @ rest"
      using ANSI_RE_match_Some by blast
    with "2.prems" have "escapes_complete rest"
      by (metis escapes_complete_suffix)
    with "2.IH"(2) [OF Some] Some show ?thesis by simp
  qed
qed

lemma strip_ansi_subseq: "subseq (strip_ansi s) s"
proof (induction s rule: strip_ansi.induct)
  case 1
  show ?case by simp
next
  case (2 c cs)
  show ?case
  proof (cases "ANSI_RE_match (c # cs)")
    case None
    with "2.IH"(1) [OF None] show ?thesis by simp
  next
    case (Some rest)
    then obtain q where "c # cs = q @ rest"
      using ANSI_RE_match_Some by blast
    then have "subseq rest (c # cs)"
      by (metis subseq_order.order_refl list_emb_append2)
    with "2.IH"(2) [OF Some] Some show ?thesis
      by (metis (no_types, lifting) option.simps(5) strip_ansi.simps(2) subseq_order.order_trans)
  qed
qed

text \<open>
  C1, as the specification words it: stripping twice is stripping once. Removing a
  sequence can join the characters around it into a new sequence: from
  \<^verbatim>\<open>ESC [ ESC [ m m\<close> one pass removes the inner \<^verbatim>\<open>ESC [ m\<close> and leaves \<^verbatim>\<open>ESC [ m\<close>,
  which a second pass removes.
\<close>

theorem strip_ansi_not_idempotent:
  "strip_ansi [ESC, cp CHR ''['', ESC, cp CHR ''['', cp CHR ''m'', cp CHR ''m'']
     = [ESC, cp CHR ''['', cp CHR ''m''] \<and>
   strip_ansi (strip_ansi [ESC, cp CHR ''['', ESC, cp CHR ''['', cp CHR ''m'', cp CHR ''m'']) = [] \<and>
   strip_ansi (strip_ansi [ESC, cp CHR ''['', ESC, cp CHR ''['', cp CHR ''m'', cp CHR ''m''])
     \<noteq> strip_ansi [ESC, cp CHR ''['', ESC, cp CHR ''['', cp CHR ''m'', cp CHR ''m'']"
  by (simp add: ANSI_RE_match_def is_param_def lit_def cp_def ESC_def)

text \<open>
  C1, amended. Stripping removes the escape sequences of its input and nothing else: a
  sequence at the head of the text is dropped whole, a character that begins no sequence
  is kept, the result is the input with characters left out, and a text without a
  sequence comes back as it is. Stripping twice equals stripping once whenever the
  stripped text holds no sequence, which is so for every input in which each ESC begins
  a complete sequence.
\<close>

theorem strip_ansi_removes_sequences:
  "(is_ansi_seq q \<longrightarrow> strip_ansi (q @ r) = strip_ansi r) \<and>
   (\<not> starts_with_ansi (c # cs) \<longrightarrow> strip_ansi (c # cs) = c # strip_ansi cs) \<and>
   subseq (strip_ansi s) s \<and>
   (\<not> has_ansi s \<longrightarrow> strip_ansi s = s) \<and>
   (\<not> has_ansi (strip_ansi s) \<longrightarrow> strip_ansi (strip_ansi s) = strip_ansi s) \<and>
   (escapes_complete s \<longrightarrow>
      \<not> has_ansi (strip_ansi s) \<and> strip_ansi (strip_ansi s) = strip_ansi s)"
proof (intro conjI impI)
  assume "is_ansi_seq q"
  then show "strip_ansi (q @ r) = strip_ansi r" by (rule strip_ansi_drop)
next
  assume "\<not> starts_with_ansi (c # cs)"
  then show "strip_ansi (c # cs) = c # strip_ansi cs" by (rule strip_ansi_keep)
next
  show "subseq (strip_ansi s) s" by (rule strip_ansi_subseq)
next
  assume "\<not> has_ansi s"
  then show "strip_ansi s = s" by (rule strip_ansi_no_ansi)
next
  assume "\<not> has_ansi (strip_ansi s)"
  then show "strip_ansi (strip_ansi s) = strip_ansi s" by (rule strip_ansi_no_ansi)
next
  assume "escapes_complete s"
  then have "ESC \<notin> set (strip_ansi s)" by (rule strip_ansi_no_ESC)
  then show "\<not> has_ansi (strip_ansi s)" by (blast dest: has_ansi_ESC)
next
  assume "escapes_complete s"
  then have "ESC \<notin> set (strip_ansi s)" by (rule strip_ansi_no_ESC)
  then have "\<not> has_ansi (strip_ansi s)" by (blast dest: has_ansi_ESC)
  then show "strip_ansi (strip_ansi s) = strip_ansi s" by (rule strip_ansi_no_ansi)
qed

theorem strip_ansi_removes_sequences_witness:
  "is_ansi_seq (ESC # (lit ''[1;31m'')) \<and>
   strip_ansi ((ESC # (lit ''[1;31m'')) @ (lit ''red'')) = strip_ansi (lit ''red'') \<and>
   \<not> starts_with_ansi (ESC # (lit ''[K'')) \<and>
   strip_ansi (ESC # (lit ''[K'')) = ESC # strip_ansi (lit ''[K'') \<and>
   \<not> has_ansi (lit ''plain [0m'') \<and>
   strip_ansi (lit ''plain [0m'') = (lit ''plain [0m'') \<and>
   escapes_complete (ESC # (lit ''[32mok'') @ ESC # (lit ''[0m'')) \<and>
   \<not> has_ansi (strip_ansi (ESC # (lit ''[32mok'') @ ESC # (lit ''[0m''))) \<and>
   strip_ansi (strip_ansi (ESC # (lit ''[32mok'') @ ESC # (lit ''[0m'')))
     = strip_ansi (ESC # (lit ''[32mok'') @ ESC # (lit ''[0m''))"
proof -
  have a: "is_ansi_seq (ESC # (lit ''[1;31m''))"
    by (simp add: is_ansi_seq_def is_param_def lit_def cp_def)
  have b: "\<not> starts_with_ansi (ESC # (lit ''[K''))"
    by (simp add: starts_with_ansi_def is_ansi_seq_def is_param_def lit_def cp_def)
  have c: "\<not> has_ansi (lit ''plain [0m'')"
    by (simp add: has_ansi_def starts_with_ansi_def is_ansi_seq_def ESC_def lit_def cp_def)
  have d: "escapes_complete (ESC # (lit ''[32mok'') @ ESC # (lit ''[0m''))"
    by (simp add: escapes_complete_def starts_with_ansi_def is_ansi_seq_def is_param_def
        lit_def cp_def ESC_def)
  from a b c d
    strip_ansi_removes_sequences
      [of "ESC # (lit ''[1;31m'')" "(lit ''red'')" ESC "(lit ''[K'')" "(lit ''plain [0m'')"]
    strip_ansi_removes_sequences
      [of "ESC # (lit ''[1;31m'')" "(lit ''red'')" ESC "(lit ''[K'')" "ESC # (lit ''[32mok'') @ ESC # (lit ''[0m'')"]
  show ?thesis by blast
qed

section \<open>The Unicode tables on ASCII text\<close>

lemma python_unicode_ascii: "python_unicode ascii_unicode"
  unfolding python_unicode_def ascii_unicode_def
  by (auto intro: map_mono_sublist)

lemma str_lower_ascii:
  assumes "python_unicode U" and "list_all is_ascii s"
  shows "str_lower U s = map ascii_lower s"
  using assms by (simp add: python_unicode_def)

lemma str_lower_keeps:
  assumes "python_unicode U" and "list_all is_ascii k" and "sublist k s"
  shows "sublist (map ascii_lower k) (str_lower U s)"
  using assms unfolding python_unicode_def by blast

lemma re_digit_ascii:
  assumes "python_unicode U" and "is_ascii c"
  shows "re_digit U c = (48 \<le> c \<and> c \<le> 57)"
  using assms by (simp add: python_unicode_def)

lemma match_date_ascii:
  assumes U: "python_unicode U" and a: "list_all is_ascii line"
  shows "match_date U line = match_date ascii_unicode line"
proof -
  have d: "re_digit U c = re_digit ascii_unicode c" if "c \<in> set line" for c
  proof -
    from a that have "is_ascii c" by (simp add: list_all_iff)
    with U show ?thesis by (simp add: re_digit_ascii ascii_unicode_def)
  qed
  show ?thesis
    unfolding match_date_def
    by (cases line rule: list.exhaust; simp split: list.splits) (auto simp: d)
qed

lemma classify_line_ascii:
  assumes "python_unicode U" and "list_all is_ascii line"
  shows "classify_line U self line stream = classify_line ascii_unicode self line stream"
proof -
  from assms have "str_lower U line = str_lower ascii_unicode line"
    by (simp add: str_lower_ascii ascii_unicode_def)
  moreover from assms have "match_date U line = match_date ascii_unicode line"
    by (rule match_date_ascii)
  ultimately show ?thesis
    by (simp add: classify_line_def)
qed

lemmas classify_eval =
  classify_line_def error_rule_def warn_rule_def tool_rule_def route_rule_def success_rule_def
  info_rule_def any_in_def ascii_unicode_def ascii_lower_def is_ascii_def lit_def cp_def
  sublist_code(3) match_date_def

section \<open>Classification: the order of the rules\<close>

text \<open>
  C3. A line of the stderr stream is classified \<^verbatim>\<open>error\<close> whatever it contains:
  the stream test comes before every test on the content.
\<close>

theorem classify_line_stderr:
  "classify_line U self line ''stderr'' = ''error''"
  by (simp add: classify_line_def)

text \<open>
  C4. The rules are tried in a fixed order and the first match wins: each category is
  returned exactly when its own test holds and no test before it does. So \<^verbatim>\<open>dim\<close>
  is returned only when the line begins with a date and no earlier rule matches. The
  stdout line \<^verbatim>\<open>2024-01-01 starting up\<close> is \<^verbatim>\<open>dim\<close>; a stdout line that begins with
  a date and contains \<^verbatim>\<open>error\<close>, as written or in any mix of cases, is \<^verbatim>\<open>error\<close>.
\<close>

theorem classify_line_priority:
  "(classify_line U self line stream = ''error''
      \<longleftrightarrow> stream = ''stderr'' \<or> error_rule (str_lower U line)) \<and>
   (classify_line U self line stream = ''warn''
      \<longleftrightarrow> stream \<noteq> ''stderr'' \<and> \<not> error_rule (str_lower U line)
          \<and> warn_rule (str_lower U line)) \<and>
   (classify_line U self line stream = ''tool''
      \<longleftrightarrow> stream \<noteq> ''stderr'' \<and> \<not> error_rule (str_lower U line)
          \<and> \<not> warn_rule (str_lower U line) \<and> tool_rule (str_lower U line)) \<and>
   (classify_line U self line stream = ''route''
      \<longleftrightarrow> stream \<noteq> ''stderr'' \<and> \<not> error_rule (str_lower U line)
          \<and> \<not> warn_rule (str_lower U line) \<and> \<not> tool_rule (str_lower U line)
          \<and> route_rule (str_lower U line)) \<and>
   (classify_line U self line stream = ''success''
      \<longleftrightarrow> stream \<noteq> ''stderr'' \<and> \<not> error_rule (str_lower U line)
          \<and> \<not> warn_rule (str_lower U line) \<and> \<not> tool_rule (str_lower U line)
          \<and> \<not> route_rule (str_lower U line) \<and> success_rule (str_lower U line)) \<and>
   (classify_line U self line stream = ''info''
      \<longleftrightarrow> stream \<noteq> ''stderr'' \<and> \<not> error_rule (str_lower U line)
          \<and> \<not> warn_rule (str_lower U line) \<and> \<not> tool_rule (str_lower U line)
          \<and> \<not> route_rule (str_lower U line) \<and> \<not> success_rule (str_lower U line)
          \<and> info_rule (str_lower U line)) \<and>
   (classify_line U self line stream = ''dim''
      \<longleftrightarrow> stream \<noteq> ''stderr'' \<and> \<not> error_rule (str_lower U line)
          \<and> \<not> warn_rule (str_lower U line) \<and> \<not> tool_rule (str_lower U line)
          \<and> \<not> route_rule (str_lower U line) \<and> \<not> success_rule (str_lower U line)
          \<and> \<not> info_rule (str_lower U line) \<and> match_date U line) \<and>
   (classify_line U self line stream = []
      \<longleftrightarrow> stream \<noteq> ''stderr'' \<and> \<not> error_rule (str_lower U line)
          \<and> \<not> warn_rule (str_lower U line) \<and> \<not> tool_rule (str_lower U line)
          \<and> \<not> route_rule (str_lower U line) \<and> \<not> success_rule (str_lower U line)
          \<and> \<not> info_rule (str_lower U line) \<and> \<not> match_date U line) \<and>
   (python_unicode U
      \<longrightarrow> classify_line U self (lit ''2024-01-01 starting up'') ''stdout'' = ''dim'') \<and>
   (python_unicode U \<and> match_date U line \<and> sublist (lit ''error'') line
      \<longrightarrow> classify_line U self line ''stdout'' = ''error'') \<and>
   (match_date U line \<and> sublist (lit ''error'') (str_lower U line)
      \<longrightarrow> classify_line U self line ''stdout'' = ''error'')"
proof -
  have order:
    "classify_line U self line stream = ''error''
      \<longleftrightarrow> stream = ''stderr'' \<or> error_rule (str_lower U line)"
    "classify_line U self line stream = ''warn''
      \<longleftrightarrow> stream \<noteq> ''stderr'' \<and> \<not> error_rule (str_lower U line)
          \<and> warn_rule (str_lower U line)"
    "classify_line U self line stream = ''tool''
      \<longleftrightarrow> stream \<noteq> ''stderr'' \<and> \<not> error_rule (str_lower U line)
          \<and> \<not> warn_rule (str_lower U line) \<and> tool_rule (str_lower U line)"
    "classify_line U self line stream = ''route''
      \<longleftrightarrow> stream \<noteq> ''stderr'' \<and> \<not> error_rule (str_lower U line)
          \<and> \<not> warn_rule (str_lower U line) \<and> \<not> tool_rule (str_lower U line)
          \<and> route_rule (str_lower U line)"
    "classify_line U self line stream = ''success''
      \<longleftrightarrow> stream \<noteq> ''stderr'' \<and> \<not> error_rule (str_lower U line)
          \<and> \<not> warn_rule (str_lower U line) \<and> \<not> tool_rule (str_lower U line)
          \<and> \<not> route_rule (str_lower U line) \<and> success_rule (str_lower U line)"
    "classify_line U self line stream = ''info''
      \<longleftrightarrow> stream \<noteq> ''stderr'' \<and> \<not> error_rule (str_lower U line)
          \<and> \<not> warn_rule (str_lower U line) \<and> \<not> tool_rule (str_lower U line)
          \<and> \<not> route_rule (str_lower U line) \<and> \<not> success_rule (str_lower U line)
          \<and> info_rule (str_lower U line)"
    "classify_line U self line stream = ''dim''
      \<longleftrightarrow> stream \<noteq> ''stderr'' \<and> \<not> error_rule (str_lower U line)
          \<and> \<not> warn_rule (str_lower U line) \<and> \<not> tool_rule (str_lower U line)
          \<and> \<not> route_rule (str_lower U line) \<and> \<not> success_rule (str_lower U line)
          \<and> \<not> info_rule (str_lower U line) \<and> match_date U line"
    "classify_line U self line stream = []
      \<longleftrightarrow> stream \<noteq> ''stderr'' \<and> \<not> error_rule (str_lower U line)
          \<and> \<not> warn_rule (str_lower U line) \<and> \<not> tool_rule (str_lower U line)
          \<and> \<not> route_rule (str_lower U line) \<and> \<not> success_rule (str_lower U line)
          \<and> \<not> info_rule (str_lower U line) \<and> \<not> match_date U line"
    by (simp_all add: classify_line_def Let_def)
  have dated: "classify_line U self (lit ''2024-01-01 starting up'') ''stdout'' = ''dim''"
    if "python_unicode U"
  proof -
    have "list_all is_ascii (lit ''2024-01-01 starting up'')"
      by (simp add: is_ascii_def lit_def cp_def)
    with that have "classify_line U self (lit ''2024-01-01 starting up'') ''stdout''
        = classify_line ascii_unicode self (lit ''2024-01-01 starting up'') ''stdout''"
      by (rule classify_line_ascii)
    also have "\<dots> = ''dim''"
      by (simp add: classify_eval)
    finally show ?thesis .
  qed
  have lowered: "classify_line U self line ''stdout'' = ''error''"
    if "sublist (lit ''error'') (str_lower U line)"
    using that by (simp add: classify_line_def error_rule_def any_in_def Let_def)
  have written: "classify_line U self line ''stdout'' = ''error''"
    if "python_unicode U" and "sublist (lit ''error'') line"
  proof -
    have "list_all is_ascii (lit ''error'')"
      by (simp add: is_ascii_def lit_def cp_def)
    with that have "sublist (map ascii_lower (lit ''error'')) (str_lower U line)"
      by (intro str_lower_keeps)
    moreover have "map ascii_lower (lit ''error'') = lit ''error''"
      by (simp add: ascii_lower_def lit_def cp_def)
    ultimately show ?thesis by (simp add: lowered)
  qed
  show ?thesis
    by (intro conjI order) (auto simp: dated written lowered)
qed

theorem classify_line_priority_witness:
  "python_unicode ascii_unicode \<and>
   match_date ascii_unicode (lit ''2024-01-01 Error: boom'') \<and>
   sublist (lit ''error'') (str_lower ascii_unicode (lit ''2024-01-01 Error: boom'')) \<and>
   match_date ascii_unicode (lit ''2024-01-01 error: boom'') \<and>
   sublist (lit ''error'') (lit ''2024-01-01 error: boom'') \<and>
   classify_line ascii_unicode (init_viewer []) (lit ''2024-01-01 starting up'') ''stdout''
     = ''dim'' \<and>
   classify_line ascii_unicode (init_viewer []) (lit ''2024-01-01 Error: boom'') ''stdout''
     = ''error'' \<and>
   classify_line ascii_unicode (init_viewer []) (lit ''2024-01-01 error: boom'') ''stdout''
     = ''error''"
proof -
  have a: "match_date ascii_unicode (lit ''2024-01-01 Error: boom'')"
    by (simp add: match_date_def ascii_unicode_def lit_def cp_def)
  have b: "sublist (lit ''error'') (str_lower ascii_unicode (lit ''2024-01-01 Error: boom''))"
    by (simp add: ascii_unicode_def ascii_lower_def lit_def cp_def sublist_code(3))
  have c: "match_date ascii_unicode (lit ''2024-01-01 error: boom'')"
    by (simp add: match_date_def ascii_unicode_def lit_def cp_def)
  have d: "sublist (lit ''error'') (lit ''2024-01-01 error: boom'')"
    by (simp add: lit_def cp_def sublist_code(3))
  have e: "python_unicode ascii_unicode
      \<longrightarrow> classify_line ascii_unicode (init_viewer []) (lit ''2024-01-01 starting up'')
            ''stdout'' = ''dim''"
    using classify_line_priority
      [of ascii_unicode "init_viewer []" "lit ''2024-01-01 Error: boom''" "''stdout''"]
    by (elim conjE) assumption
  have f: "match_date ascii_unicode (lit ''2024-01-01 Error: boom'')
      \<and> sublist (lit ''error'') (str_lower ascii_unicode (lit ''2024-01-01 Error: boom''))
      \<longrightarrow> classify_line ascii_unicode (init_viewer []) (lit ''2024-01-01 Error: boom'')
            ''stdout'' = ''error''"
    using classify_line_priority
      [of ascii_unicode "init_viewer []" "lit ''2024-01-01 Error: boom''" "''stdout''"]
    by (elim conjE) assumption
  have g: "python_unicode ascii_unicode
      \<and> match_date ascii_unicode (lit ''2024-01-01 error: boom'')
      \<and> sublist (lit ''error'') (lit ''2024-01-01 error: boom'')
      \<longrightarrow> classify_line ascii_unicode (init_viewer []) (lit ''2024-01-01 error: boom'')
            ''stdout'' = ''error''"
    using classify_line_priority
      [of ascii_unicode "init_viewer []" "lit ''2024-01-01 error: boom''" "''stdout''"]
    by (elim conjE) assumption
  from python_unicode_ascii a b c d e f g show ?thesis by blast
qed

lemma route_wins:
  assumes "stream \<noteq> ''stderr''"
    and "\<not> error_rule (str_lower U line)"
    and "\<not> warn_rule (str_lower U line)"
    and "\<not> tool_rule (str_lower U line)"
    and "route_rule (str_lower U line)"
  shows "classify_line U self line stream = ''route''"
  using assms by (simp add: classify_line_def Let_def)

lemma no_route_without_space:
  assumes "python_unicode U"
  shows "classify_line U self (lit ''GET/api/users 200'') ''stdout'' = []"
    and "classify_line U self (lit ''GET  /api/users 200'') ''stdout'' = []"
proof -
  have "list_all is_ascii (lit ''GET/api/users 200'')"
    by (simp add: is_ascii_def lit_def cp_def)
  with assms have "classify_line U self (lit ''GET/api/users 200'') ''stdout''
      = classify_line ascii_unicode self (lit ''GET/api/users 200'') ''stdout''"
    by (rule classify_line_ascii)
  also have "\<dots> = []"
    by (simp add: classify_eval)
  finally show "classify_line U self (lit ''GET/api/users 200'') ''stdout'' = []" .
  have "list_all is_ascii (lit ''GET  /api/users 200'')"
    by (simp add: is_ascii_def lit_def cp_def)
  with assms have "classify_line U self (lit ''GET  /api/users 200'') ''stdout''
      = classify_line ascii_unicode self (lit ''GET  /api/users 200'') ''stdout''"
    by (rule classify_line_ascii)
  also have "\<dots> = []"
    by (simp add: classify_eval)
  finally show "classify_line U self (lit ''GET  /api/users 200'') ''stdout'' = []" .
qed

text \<open>
  C6, as the specification words it: a stdout line that no earlier rule takes and that
  contains an HTTP method followed by \<^verbatim>\<open>/\<close> is a route. The keywords of the code
  have a space between the method and the slash, so a method followed at once by the
  slash, or by two spaces and the slash, is not a route. The two lines are ASCII, where
  all tables with the properties of Python's give the same.
\<close>

theorem classify_line_route_counterexample:
  "sublist (lit ''GET/'') (lit ''GET/api/users 200'') \<and>
   classify_line ascii_unicode (init_viewer []) (lit ''GET/api/users 200'') ''stdout'' = [] \<and>
   classify_line ascii_unicode (init_viewer []) (lit ''GET  /api/users 200'') ''stdout'' = []"
proof -
  have "sublist (lit ''GET/'') (lit ''GET/api/users 200'')"
    by (simp add: lit_def cp_def)
  with no_route_without_space [OF python_unicode_ascii, of "init_viewer []"]
  show ?thesis by simp
qed

text \<open>
  C6, amended. A line of a stream other than stderr that no earlier rule (error, warn,
  tool) takes and that contains an HTTP method (GET, POST, PATCH, DELETE, PUT) followed
  by one space and \<^verbatim>\<open>/\<close> is a route; \<^verbatim>\<open>GET /api/users 200\<close> on stdout is one.
\<close>

theorem classify_line_route_method:
  "(python_unicode U \<and> stream \<noteq> ''stderr'' \<and>
    \<not> error_rule (str_lower U line) \<and> \<not> warn_rule (str_lower U line) \<and>
    \<not> tool_rule (str_lower U line) \<and>
    any_in [lit ''GET /'', lit ''POST /'', lit ''PATCH /'', lit ''DELETE /'', lit ''PUT /''] line
    \<longrightarrow> classify_line U self line stream = ''route'') \<and>
   (python_unicode U
    \<longrightarrow> classify_line U self (lit ''GET /api/users 200'') ''stdout'' = ''route'')"
proof (intro conjI impI)
  assume h: "python_unicode U \<and> stream \<noteq> ''stderr'' \<and>
    \<not> error_rule (str_lower U line) \<and> \<not> warn_rule (str_lower U line) \<and>
    \<not> tool_rule (str_lower U line) \<and>
    any_in [lit ''GET /'', lit ''POST /'', lit ''PATCH /'', lit ''DELETE /'', lit ''PUT /''] line"
  then have U: "python_unicode U" by simp
  have low: "sublist (map ascii_lower (lit k)) (str_lower U line)"
    if "sublist (lit k) line" and "list_all is_ascii (lit k)" for k
    using U that(2) that(1) by (rule str_lower_keeps)
  have asc: "list_all is_ascii (lit ''GET /'')" "list_all is_ascii (lit ''POST /'')"
    "list_all is_ascii (lit ''PATCH /'')" "list_all is_ascii (lit ''DELETE /'')"
    "list_all is_ascii (lit ''PUT /'')"
    by (simp_all add: is_ascii_def lit_def cp_def)
  from h have "sublist (lit ''GET /'') line \<or> sublist (lit ''POST /'') line
      \<or> sublist (lit ''PATCH /'') line \<or> sublist (lit ''DELETE /'') line
      \<or> sublist (lit ''PUT /'') line"
    by (simp add: any_in_def)
  then have "sublist (map ascii_lower (lit ''GET /'')) (str_lower U line)
      \<or> sublist (map ascii_lower (lit ''POST /'')) (str_lower U line)
      \<or> sublist (map ascii_lower (lit ''PATCH /'')) (str_lower U line)
      \<or> sublist (map ascii_lower (lit ''DELETE /'')) (str_lower U line)
      \<or> sublist (map ascii_lower (lit ''PUT /'')) (str_lower U line)"
    using low asc by blast
  moreover have "map ascii_lower (lit ''GET /'') = lit ''get /''"
    "map ascii_lower (lit ''POST /'') = lit ''post /''"
    "map ascii_lower (lit ''PATCH /'') = lit ''patch /''"
    "map ascii_lower (lit ''DELETE /'') = lit ''delete /''"
    "map ascii_lower (lit ''PUT /'') = lit ''put /''"
    by (simp_all add: ascii_lower_def lit_def cp_def)
  ultimately have "route_rule (str_lower U line)"
    by (simp add: route_rule_def any_in_def)
  with h show "classify_line U self line stream = ''route''"
    by (simp add: route_wins)
next
  assume U: "python_unicode U"
  have "list_all is_ascii (lit ''GET /api/users 200'')"
    by (simp add: is_ascii_def lit_def cp_def)
  with U have "classify_line U self (lit ''GET /api/users 200'') ''stdout''
      = classify_line ascii_unicode self (lit ''GET /api/users 200'') ''stdout''"
    by (rule classify_line_ascii)
  also have "\<dots> = ''route''"
    by (simp add: classify_eval)
  finally show "classify_line U self (lit ''GET /api/users 200'') ''stdout'' = ''route''" .
qed

theorem classify_line_route_method_witness:
  "python_unicode ascii_unicode \<and> ''stdout'' \<noteq> ''stderr'' \<and>
   \<not> error_rule (str_lower ascii_unicode (lit ''POST /api/login 302'')) \<and>
   \<not> warn_rule (str_lower ascii_unicode (lit ''POST /api/login 302'')) \<and>
   \<not> tool_rule (str_lower ascii_unicode (lit ''POST /api/login 302'')) \<and>
   any_in [lit ''GET /'', lit ''POST /'', lit ''PATCH /'', lit ''DELETE /'', lit ''PUT /'']
     (lit ''POST /api/login 302'') \<and>
   classify_line ascii_unicode (init_viewer []) (lit ''POST /api/login 302'') ''stdout''
     = ''route'' \<and>
   classify_line ascii_unicode (init_viewer []) (lit ''GET /api/users 200'') ''stdout''
     = ''route''"
proof -
  have h: "python_unicode ascii_unicode \<and> ''stdout'' \<noteq> ''stderr'' \<and>
   \<not> error_rule (str_lower ascii_unicode (lit ''POST /api/login 302'')) \<and>
   \<not> warn_rule (str_lower ascii_unicode (lit ''POST /api/login 302'')) \<and>
   \<not> tool_rule (str_lower ascii_unicode (lit ''POST /api/login 302'')) \<and>
   any_in [lit ''GET /'', lit ''POST /'', lit ''PATCH /'', lit ''DELETE /'', lit ''PUT /'']
     (lit ''POST /api/login 302'')"
    by (simp add: python_unicode_ascii)
      (simp add: error_rule_def warn_rule_def tool_rule_def any_in_def ascii_unicode_def
        ascii_lower_def lit_def cp_def sublist_code(3))
  with classify_line_route_method
      [of ascii_unicode "''stdout''" "lit ''POST /api/login 302''" "init_viewer []"]
  show ?thesis by blast
qed

text \<open>
  C8. The category depends on the text of the line and on its stream only: the method
  gets the whole viewer as \<^verbatim>\<open>self\<close> and never looks at it, so two viewers that
  differ in filter, buffer, selection or anything else give the same category, and
  nothing that happened to the viewer before the call changes it.
\<close>

theorem classify_line_self_independent:
  "classify_line U v1 line stream = classify_line U v2 line stream \<and>
   classify_line U (viewer_run U v es) line stream = classify_line U v line stream"
  by (simp add: classify_line_def)

text \<open>
  C10. The route keywords are looked for anywhere in the lowered line, also inside a
  longer word: a line of a stream other than stderr whose lowered form contains one of
  \<^verbatim>\<open>get /\<close>, \<^verbatim>\<open>post /\<close>, \<^verbatim>\<open>patch /\<close>, \<^verbatim>\<open>delete /\<close>, \<^verbatim>\<open>put /\<close> and that no earlier rule
  takes is a route, and so is \<^verbatim>\<open>forget /tmp/x\<close>.
\<close>

theorem classify_line_route_unanchored:
  "(stream \<noteq> ''stderr'' \<and>
    \<not> error_rule (str_lower U line) \<and> \<not> warn_rule (str_lower U line) \<and>
    \<not> tool_rule (str_lower U line) \<and>
    any_in [lit ''get /'', lit ''post /'', lit ''patch /'', lit ''delete /'', lit ''put /'']
      (str_lower U line)
    \<longrightarrow> classify_line U self line stream = ''route'') \<and>
   (python_unicode U
    \<longrightarrow> classify_line U self (lit ''forget /tmp/x'') ''stdout'' = ''route'')"
proof (intro conjI impI)
  assume "stream \<noteq> ''stderr'' \<and>
    \<not> error_rule (str_lower U line) \<and> \<not> warn_rule (str_lower U line) \<and>
    \<not> tool_rule (str_lower U line) \<and>
    any_in [lit ''get /'', lit ''post /'', lit ''patch /'', lit ''delete /'', lit ''put /'']
      (str_lower U line)"
  then show "classify_line U self line stream = ''route''"
    by (simp add: route_wins route_rule_def)
next
  assume U: "python_unicode U"
  have "list_all is_ascii (lit ''forget /tmp/x'')"
    by (simp add: is_ascii_def lit_def cp_def)
  with U have "classify_line U self (lit ''forget /tmp/x'') ''stdout''
      = classify_line ascii_unicode self (lit ''forget /tmp/x'') ''stdout''"
    by (rule classify_line_ascii)
  also have "\<dots> = ''route''"
    by (simp add: classify_eval)
  finally show "classify_line U self (lit ''forget /tmp/x'') ''stdout'' = ''route''" .
qed

theorem classify_line_route_unanchored_witness:
  "python_unicode ascii_unicode \<and> ''stdout'' \<noteq> ''stderr'' \<and>
   \<not> error_rule (str_lower ascii_unicode (lit ''Widget /x'')) \<and>
   \<not> warn_rule (str_lower ascii_unicode (lit ''Widget /x'')) \<and>
   \<not> tool_rule (str_lower ascii_unicode (lit ''Widget /x'')) \<and>
   any_in [lit ''get /'', lit ''post /'', lit ''patch /'', lit ''delete /'', lit ''put /'']
     (str_lower ascii_unicode (lit ''Widget /x'')) \<and>
   classify_line ascii_unicode (init_viewer []) (lit ''Widget /x'') ''stdout'' = ''route'' \<and>
   classify_line ascii_unicode (init_viewer []) (lit ''forget /tmp/x'') ''stdout'' = ''route''"
proof -
  have h: "python_unicode ascii_unicode \<and> ''stdout'' \<noteq> ''stderr'' \<and>
   \<not> error_rule (str_lower ascii_unicode (lit ''Widget /x'')) \<and>
   \<not> warn_rule (str_lower ascii_unicode (lit ''Widget /x'')) \<and>
   \<not> tool_rule (str_lower ascii_unicode (lit ''Widget /x'')) \<and>
   any_in [lit ''get /'', lit ''post /'', lit ''patch /'', lit ''delete /'', lit ''put /'']
     (str_lower ascii_unicode (lit ''Widget /x''))"
    by (simp add: python_unicode_ascii)
      (simp add: error_rule_def warn_rule_def tool_rule_def any_in_def ascii_unicode_def
        ascii_lower_def lit_def cp_def sublist_code(3))
  with classify_line_route_unanchored
      [of "''stdout''" ascii_unicode "lit ''Widget /x''" "init_viewer []"]
  show ?thesis by blast
qed

section \<open>The bounded buffer\<close>

lemma buffer_size_drop_lines:
  "length (filter (\<lambda>c. ch c = NL) (drop_lines n cs))
     = length (filter (\<lambda>c. ch c = NL) cs) - n"
  by (induction n cs rule: drop_lines.induct) simp_all

lemma suffix_drop_lines: "suffix (drop_lines n cs) cs"
  by (induction n cs rule: drop_lines.induct) (auto intro: suffix_ConsI)

lemma drop_lines_append:
  "n \<le> length (filter (\<lambda>c. ch c = NL) xs) \<Longrightarrow> drop_lines n (xs @ ys) = drop_lines n xs @ ys"
  by (induction n xs rule: drop_lines.induct) (auto split: if_splits)

lemma evict_text:
  "text_widget (let line_count = index_end_1c_line v1
                in if line_count > 5000 then text_delete_to_line v1 (line_count - 5000) else v1)
     = drop_lines (buffer_size v1 - 5000) (text_widget v1)"
proof (cases "index_end_1c_line v1 > 5000")
  case True
  then show ?thesis
    by (simp add: index_end_1c_line_def buffer_size_def text_delete_to_line_def)
next
  case False
  then have "buffer_size v1 - 5000 = 0"
    by (simp add: index_end_1c_line_def buffer_size_def)
  with False show ?thesis by simp
qed

lemma evict_other:
  "filter_var (let line_count = index_end_1c_line v1
                in if line_count > 5000 then text_delete_to_line v1 (line_count - 5000) else v1)
     = filter_var v1"
  "end_tags (let line_count = index_end_1c_line v1
                in if line_count > 5000 then text_delete_to_line v1 (line_count - 5000) else v1)
     = end_tags v1"
  "running (let line_count = index_end_1c_line v1
                in if line_count > 5000 then text_delete_to_line v1 (line_count - 5000) else v1)
     = running v1"
  "clipboard (let line_count = index_end_1c_line v1
                in if line_count > 5000 then text_delete_to_line v1 (line_count - 5000) else v1)
     = clipboard v1"
  by (simp_all add: text_delete_to_line_def Let_def)

lemma append_line_insert_text:
  "text_widget (append_line_insert v clean tag) =
     drop_lines (buffer_size v + length (filter (\<lambda>c. c = NL) clean) + 1 - 5000)
       (text_widget v @ map (\<lambda>c. \<lparr>ch = c, tags = inserted_tags v tag\<rparr>) (clean @ [NL]))"
proof -
  let ?v1 = "if tag \<noteq> [] then text_insert_end_tagged v (clean @ [NL]) tag
             else text_insert_end v (clean @ [NL])"
  have t: "text_widget ?v1 =
      text_widget v @ map (\<lambda>c. \<lparr>ch = c, tags = inserted_tags v tag\<rparr>) (clean @ [NL])"
    by (simp add: text_insert_end_tagged_def text_insert_end_def inserted_tags_def Let_def)
  have "length (filter (\<lambda>c. ch c = NL) (map (\<lambda>c. \<lparr>ch = c, tags = ts\<rparr>) cs))
      = length (filter (\<lambda>c. c = NL) cs)" for ts cs
    by (induction cs) simp_all
  then have n: "buffer_size ?v1 = buffer_size v + length (filter (\<lambda>c. c = NL) clean) + 1"
    unfolding buffer_size_def t by simp
  have "text_widget (append_line_insert v clean tag)
      = drop_lines (buffer_size ?v1 - 5000) (text_widget ?v1)"
    unfolding append_line_insert_def Let_def [of ?v1] by (rule evict_text)
  then show ?thesis
    by (simp only: t n)
qed

lemma buffer_size_append_line_insert:
  "buffer_size (append_line_insert v clean tag) \<le> 5000"
proof -
  have "length (filter (\<lambda>c. ch c = NL) (map (\<lambda>c. \<lparr>ch = c, tags = ts\<rparr>) cs))
      = length (filter (\<lambda>c. c = NL) cs)" for ts cs
    by (induction cs) simp_all
  then show ?thesis
    by (simp add: buffer_size_def append_line_insert_text buffer_size_drop_lines)
qed

lemma append_line_insert_other:
  "filter_var (append_line_insert v clean tag) = filter_var v"
  "end_tags (append_line_insert v clean tag) = end_tags v"
  "running (append_line_insert v clean tag) = running v"
  "clipboard (append_line_insert v clean tag) = clipboard v"
  unfolding append_line_insert_def Let_def [of "if _ then _ else _"] evict_other
  by (simp_all add: text_insert_end_tagged_def text_insert_end_def Let_def)

lemma append_line_other:
  "filter_var (append_line U v line stream) = filter_var v"
  "end_tags (append_line U v line stream) = end_tags v"
  "running (append_line U v line stream) = running v"
  "clipboard (append_line U v line stream) = clipboard v"
  by (simp_all add: append_line_def Let_def append_line_insert_other)

lemma buffer_size_append_line:
  "buffer_size v \<le> 5000 \<Longrightarrow> buffer_size (append_line U v line stream) \<le> 5000"
  by (simp add: append_line_def Let_def buffer_size_append_line_insert)

lemma buffer_size_viewer_step:
  assumes "buffer_size v \<le> 5000"
  shows "buffer_size (viewer_step U v e) \<le> 5000"
proof (cases e)
  case (Read stream line)
  with assms show ?thesis
    by (simp add: tail_file_step_def buffer_size_append_line)
next
  case SelectAll
  have "filter (\<lambda>c. ch c = NL) (map (\<lambda>c. c\<lparr>tags := f c\<rparr>) cs)
      = map (\<lambda>c. c\<lparr>tags := f c\<rparr>) (filter (\<lambda>c. ch c = NL) cs)" for f and cs :: "tchar list"
    by (induction cs) simp_all
  with assms SelectAll show ?thesis
    by (simp add: select_all_def buffer_size_def)
next
  case CopySelection
  with assms show ?thesis
    by (simp add: copy_selection_def copy_selection_try_def buffer_size_def
        split: sum.splits tcl_error.splits)
qed (use assms in \<open>simp_all add: buffer_size_def clear_log_def on_close_def\<close>)

lemma buffer_size_viewer_run:
  "buffer_size v \<le> 5000 \<Longrightarrow> buffer_size (viewer_run U v es) \<le> 5000"
  unfolding viewer_run_def
  by (induction es arbitrary: v) (simp_all add: buffer_size_viewer_step)

lemma set_strip_ansi: "set (strip_ansi s) \<subseteq> set s"
  using strip_ansi_subseq [of s] by (auto dest: list_emb_set)

lemma buffer_size_entry:
  "NL \<notin> set clean \<Longrightarrow> length (filter (\<lambda>c. ch c = NL) (entry clean tag)) = 1"
  by (induction clean) (auto simp: entry_def)

lemma drop_lines_entry:
  "NL \<notin> set clean \<Longrightarrow> drop_lines (Suc n) (entry clean tag @ rest) = drop_lines n rest"
  by (induction clean) (auto simp: entry_def)

lemma drop_lines_entries:
  assumes "\<forall>x \<in> set xs. NL \<notin> set (fst x)"
  shows "drop_lines n (concat (map (\<lambda>(clean, tag). entry clean tag) xs))
     = concat (map (\<lambda>(clean, tag). entry clean tag) (drop n xs))"
  using assms
proof (induction xs arbitrary: n)
  case Nil
  show ?case by (cases n) simp_all
next
  case (Cons x xs)
  show ?case
  proof (cases n)
    case 0
    then show ?thesis by simp
  next
    case (Suc m)
    obtain clean tag where x: "x = (clean, tag)" by (cases x)
    with Cons.prems have "NL \<notin> set clean" by simp
    with Cons Suc x show ?thesis
      by (simp add: drop_lines_entry)
  qed
qed

lemma buffer_size_entries:
  assumes "\<forall>x \<in> set xs. NL \<notin> set (fst x)"
  shows "length (filter (\<lambda>c. ch c = NL) (concat (map (\<lambda>(clean, tag). entry clean tag) xs)))
     = length xs"
  using assms
proof (induction xs)
  case Nil
  show ?case by simp
next
  case (Cons x xs)
  obtain clean tag where x: "x = (clean, tag)" by (cases x)
  with Cons show ?case
    by (simp add: buffer_size_entry)
qed

lemma append_lines_snoc:
  "append_lines U v (ls @ [(line, stream)]) = append_line U (append_lines U v ls) line stream"
  by (simp add: append_lines_def)

lemma append_lines_other:
  "filter_var (append_lines U v ls) = filter_var v"
  "end_tags (append_lines U v ls) = end_tags v"
  by (induction ls rule: rev_induct)
    (simp_all add: append_lines_def append_line_other split: prod.splits)

lemma drop_last_window:
  "drop (min (length ls) k + 1 - k) (drop (length ls - k) ls @ [x])
     = drop (length (ls @ [x]) - k) (ls @ [x])"
proof (cases "length ls < k")
  case True
  then show ?thesis by simp
next
  case False
  then have "min (length ls) k + 1 - k = 1" by simp
  moreover from False have "length (ls @ [x]) - k = Suc (length ls - k)" by simp
  moreover from False have "drop (length ls - k) ls \<noteq> [] \<or> k = 0" by auto
  ultimately show ?thesis
    by (cases "k = 0") (auto simp: drop_Suc tl_append2 simp flip: tl_drop)
qed

lemma append_lines_window:
  assumes nl: "\<forall>x \<in> set ls. NL \<notin> set (fst x)"
    and f: "str_lower U (str_strip (filter_var v)) = []"
    and t: "text_widget v = []"
    and e: "end_tags v = []"
  shows "text_widget (append_lines U v ls) =
     concat (map (\<lambda>(clean, tag). entry clean tag)
       (drop (length ls - 5000)
         (map (\<lambda>(line, stream). (strip_ansi line, classify_line U v (strip_ansi line) stream)) ls)))"
  using nl
proof (induction ls rule: rev_induct)
  case Nil
  show ?case by (simp add: append_lines_def t)
next
  case (snoc x ls)
  obtain line stream where x: "x = (line, stream)" by (cases x)
  let ?E = "\<lambda>(clean, tag). entry clean tag"
  let ?C = "\<lambda>(line, stream). (strip_ansi line, classify_line U v (strip_ansi line) stream)"
  let ?v = "append_lines U v ls"
  let ?w = "drop (length ls - 5000) (map ?C ls)"
  let ?clean = "strip_ansi line"
  let ?tag = "classify_line U v ?clean stream"
  from snoc.prems have nls: "\<forall>x \<in> set ls. NL \<notin> set (fst x)" by simp
  from snoc.IH [OF nls] have IH: "text_widget ?v = concat (map ?E ?w)" .
  from snoc.prems x have "NL \<notin> set line" by simp
  with set_strip_ansi have c: "NL \<notin> set ?clean" by blast
  have nlw: "\<forall>x \<in> set (?w @ [(?clean, ?tag)]). NL \<notin> set (fst x)"
  proof
    fix y assume "y \<in> set (?w @ [(?clean, ?tag)])"
    then have "y = (?clean, ?tag) \<or> y \<in> set (map ?C ls)"
      by (auto dest: in_set_dropD)
    then show "NL \<notin> set (fst y)"
    proof
      assume "y = (?clean, ?tag)"
      with c show ?thesis by simp
    next
      assume "y \<in> set (map ?C ls)"
      then obtain l s where ls: "(l, s) \<in> set ls"
        and y: "y = (strip_ansi l, classify_line U v (strip_ansi l) s)"
        by auto
      from nls ls have "NL \<notin> set l" by force
      with set_strip_ansi [of l] have "NL \<notin> set (strip_ansi l)" by blast
      with y show ?thesis by simp
    qed
  qed
  then have nlw': "\<forall>x \<in> set ?w. NL \<notin> set (fst x)" by simp
  have size: "buffer_size ?v = min (length ls) 5000"
    unfolding buffer_size_def IH buffer_size_entries [OF nlw'] by simp
  have tags: "inserted_tags ?v ?tag = (if ?tag \<noteq> [] then [?tag] else [])"
    by (simp add: inserted_tags_def append_lines_other e split: list.splits)
  have ins: "map (\<lambda>c. \<lparr>ch = c, tags = inserted_tags ?v ?tag\<rparr>) (?clean @ [NL]) = entry ?clean ?tag"
    unfolding tags entry_def ..
  have cls: "classify_line U ?v ?clean stream = ?tag"
    by (simp add: classify_line_def)
  have cnt0: "length (filter (\<lambda>c. c = NL) ?clean) = 0"
    using c by (auto simp: filter_empty_conv)
  have "text_widget (append_lines U v (ls @ [x]))
      = text_widget (append_line_insert ?v ?clean ?tag)"
    unfolding x append_lines_snoc
    by (simp add: append_line_def Let_def append_lines_other f cls)
  also have "\<dots> = drop_lines (min (length ls) 5000 + 1 - 5000) (concat (map ?E (?w @ [(?clean, ?tag)])))"
    unfolding append_line_insert_text ins size cnt0 IH by simp
  also have "\<dots> = concat (map ?E (drop (min (length ls) 5000 + 1 - 5000) (?w @ [(?clean, ?tag)])))"
    by (rule drop_lines_entries [OF nlw])
  also have "drop (min (length ls) 5000 + 1 - 5000) (?w @ [(?clean, ?tag)])
      = drop (length (ls @ [x]) - 5000) (map ?C (ls @ [x]))"
    using drop_last_window [of "map ?C ls" 5000 "(?clean, ?tag)"] by (simp add: x)
  finally show ?case .
qed

text \<open>
  C2. The buffer never holds more than 5000 lines: that is so after every insertion,
  whatever the buffer held before, and so in every state that the viewer reaches from
  its start. When lines without a newline inside arrive at an empty buffer with no
  filter active (the trimmed and lowered filter text is empty), the buffer holds the last
  5000 of them, cleaned and tagged, whole and in the order of arrival; 5001 lines leave
  the 5000 most recent ones.
\<close>

theorem display_buffer_cap:
  "buffer_size (append_line_insert v clean tag) \<le> 5000 \<and>
   buffer_size (viewer_run U (init_viewer clip) es) \<le> 5000 \<and>
   ((\<forall>x \<in> set ls. NL \<notin> set (fst x)) \<and> str_lower U (str_strip (filter_var v)) = []
      \<and> text_widget v = [] \<and> end_tags v = []
     \<longrightarrow> text_widget (append_lines U v ls) =
           concat (map (\<lambda>(line, stream).
                     entry (strip_ansi line) (classify_line U v (strip_ansi line) stream))
             (drop (length ls - 5000) ls))
         \<and> buffer_size (append_lines U v ls) = min (length ls) 5000)"
proof (intro conjI impI)
  show "buffer_size (append_line_insert v clean tag) \<le> 5000"
    by (rule buffer_size_append_line_insert)
next
  have "buffer_size (init_viewer clip) \<le> 5000"
    by (simp add: buffer_size_def init_viewer_def)
  then show "buffer_size (viewer_run U (init_viewer clip) es) \<le> 5000"
    by (rule buffer_size_viewer_run)
next
  assume h: "(\<forall>x \<in> set ls. NL \<notin> set (fst x)) \<and> str_lower U (str_strip (filter_var v)) = []
      \<and> text_widget v = [] \<and> end_tags v = []"
  let ?C = "\<lambda>(line, stream). (strip_ansi line, classify_line U v (strip_ansi line) stream)"
  from h have w: "text_widget (append_lines U v ls) =
     concat (map (\<lambda>(clean, tag). entry clean tag) (drop (length ls - 5000) (map ?C ls)))"
    by (intro append_lines_window) simp_all
  have m: "map (\<lambda>(clean, tag). entry clean tag) (drop n (map ?C ls))
      = map (\<lambda>(line, stream).
               entry (strip_ansi line) (classify_line U v (strip_ansi line) stream)) (drop n ls)"
    for n
    by (simp add: drop_map split_def)
  from w show t: "text_widget (append_lines U v ls) =
           concat (map (\<lambda>(line, stream).
                     entry (strip_ansi line) (classify_line U v (strip_ansi line) stream))
             (drop (length ls - 5000) ls))"
    by (simp only: m)
  have "\<forall>x \<in> set (drop (length ls - 5000) (map ?C ls)). NL \<notin> set (fst x)"
  proof
    fix y assume "y \<in> set (drop (length ls - 5000) (map ?C ls))"
    then have "y \<in> set (map ?C ls)" by (rule in_set_dropD)
    then obtain l s where ls: "(l, s) \<in> set ls"
      and y: "y = (strip_ansi l, classify_line U v (strip_ansi l) s)"
      by auto
    from h ls have "NL \<notin> set l" by force
    with set_strip_ansi [of l] have "NL \<notin> set (strip_ansi l)" by blast
    with y show "NL \<notin> set (fst y)" by simp
  qed
  then have "length (filter (\<lambda>c. ch c = NL)
        (concat (map (\<lambda>(clean, tag). entry clean tag) (drop (length ls - 5000) (map ?C ls)))))
      = length (drop (length ls - 5000) (map ?C ls))"
    by (rule buffer_size_entries)
  then show "buffer_size (append_lines U v ls) = min (length ls) 5000"
    unfolding buffer_size_def w by simp
qed

theorem display_buffer_cap_witness:
  "NL \<notin> set (concat (map fst (map (\<lambda>i. (replicate i (cp CHR ''x''), ''stdout'')) [0..<5001]))) \<and>
   str_lower ascii_unicode (str_strip (filter_var (init_viewer []))) = [] \<and>
   text_widget (init_viewer []) = [] \<and> end_tags (init_viewer []) = [] \<and>
   distinct (map (\<lambda>i. (replicate i (cp CHR ''x''), ''stdout'')) [0..<5001]) \<and>
   length (map (\<lambda>i. (replicate i (cp CHR ''x''), ''stdout'')) [0..<5001]) = 5001 \<and>
   buffer_size (append_lines ascii_unicode (init_viewer [])
       (map (\<lambda>i. (replicate i (cp CHR ''x''), ''stdout'')) [0..<5001])) = 5000 \<and>
   text_widget (append_lines ascii_unicode (init_viewer [])
       (map (\<lambda>i. (replicate i (cp CHR ''x''), ''stdout'')) [0..<5001])) =
     concat (map (\<lambda>(line, stream).
                     entry (strip_ansi line)
                       (classify_line ascii_unicode (init_viewer []) (strip_ansi line) stream))
             (drop 1 (map (\<lambda>i. (replicate i (cp CHR ''x''), ''stdout'')) [0..<5001])))"
proof -
  let ?ls = "map (\<lambda>i. (replicate i (cp CHR ''x''), ''stdout'')) [0..<5001]"
  have a: "\<forall>x \<in> set ?ls. NL \<notin> set (fst x)"
    by (auto simp: NL_def cp_def)
  then have a': "NL \<notin> set (concat (map fst ?ls))"
    by (simp only: set_concat set_map) blast
  have b: "str_lower ascii_unicode (str_strip (filter_var (init_viewer []))) = []"
    by (simp add: init_viewer_def str_strip_def str_rstrip_def ascii_unicode_def)
  have c: "text_widget (init_viewer []) = []" "end_tags (init_viewer []) = []"
    by (simp_all add: init_viewer_def)
  have "inj_on (\<lambda>i. (replicate i (cp CHR ''x''), ''stdout'')) (set [0..<5001])"
    by (rule inj_onI) (metis fst_conv length_replicate)
  then have d: "distinct ?ls"
    by (simp only: distinct_map distinct_upt simp_thms)
  have e: "length ?ls = 5001"
    by (simp only: length_map length_upt)
  from e have f: "length ?ls - 5000 = 1" "min (length ?ls) 5000 = 5000"
    by simp_all
  from a b c have "text_widget (append_lines ascii_unicode (init_viewer []) ?ls) =
           concat (map (\<lambda>(line, stream).
                     entry (strip_ansi line)
                       (classify_line ascii_unicode (init_viewer []) (strip_ansi line) stream))
             (drop (length ?ls - 5000) ?ls))
         \<and> buffer_size (append_lines ascii_unicode (init_viewer []) ?ls) = min (length ?ls) 5000"
    using display_buffer_cap [of "init_viewer []" "[]" "[]" ascii_unicode "[]" "[]" ?ls] by blast
  then have "text_widget (append_lines ascii_unicode (init_viewer []) ?ls) =
           concat (map (\<lambda>(line, stream).
                     entry (strip_ansi line)
                       (classify_line ascii_unicode (init_viewer []) (strip_ansi line) stream))
             (drop 1 ?ls))
         \<and> buffer_size (append_lines ascii_unicode (init_viewer []) ?ls) = 5000"
    unfolding f .
  with a' b c d e show ?thesis by blast
qed

section \<open>Filter and clipboard\<close>

lemma is_ascii_strip: "list_all is_ascii s \<Longrightarrow> list_all is_ascii (str_strip s)"
  unfolding str_strip_def str_rstrip_def list_all_iff
  by (auto dest!: set_dropWhileD)


lemma is_ascii_strip_ansi: "list_all is_ascii s \<Longrightarrow> list_all is_ascii (strip_ansi s)"
  unfolding list_all_iff using set_strip_ansi [of s] by blast

lemma append_line_ascii:
  assumes U: "python_unicode U"
    and f: "list_all is_ascii (filter_var v)"
    and l: "list_all is_ascii line"
  shows "append_line U v line stream = append_line ascii_unicode v line stream"
proof -
  from U f have "str_lower U (str_strip (filter_var v))
      = str_lower ascii_unicode (str_strip (filter_var v))"
    by (simp add: str_lower_ascii is_ascii_strip ascii_unicode_def)
  moreover from U l have "str_lower U (strip_ansi line)
      = str_lower ascii_unicode (strip_ansi line)"
    by (simp add: str_lower_ascii is_ascii_strip_ansi ascii_unicode_def)
  moreover from U l have "classify_line U v (strip_ansi line) stream
      = classify_line ascii_unicode v (strip_ansi line) stream"
    by (intro classify_line_ascii is_ascii_strip_ansi)
  ultimately show ?thesis
    by (simp add: append_line_def Let_def)
qed

lemmas append_eval =
  append_line_def append_line_insert_def text_insert_end_def text_insert_end_tagged_def
  index_end_1c_line_def buffer_text_def init_viewer_def str_strip_def str_rstrip_def
  isspace_def ANSI_RE_match_def is_param_def ESC_def NL_def classify_eval

lemma append_line_dropped:
  assumes "str_lower U (str_strip (filter_var v)) \<noteq> []"
    and "\<not> sublist (str_lower U (str_strip (filter_var v))) (str_lower U (strip_ansi line))"
  shows "append_line U v line stream = v"
  using assms by (simp add: append_line_def Let_def)

lemma append_line_accepted:
  assumes "str_lower U (str_strip (filter_var v)) = []
      \<or> sublist (str_lower U (str_strip (filter_var v))) (str_lower U (strip_ansi line))"
    and nl: "NL \<notin> set line"
  shows "\<exists>kept. suffix kept (buffer_text v)
      \<and> buffer_text (append_line U v line stream) = kept @ strip_ansi line @ [NL]"
proof -
  let ?clean = "strip_ansi line"
  let ?tag = "classify_line U v ?clean stream"
  let ?d = "buffer_size v + length (filter (\<lambda>c. c = NL) ?clean) + 1 - 5000"
  let ?new = "map (\<lambda>c. \<lparr>ch = c, tags = inserted_tags v ?tag\<rparr>) (?clean @ [NL])"
  from nl set_strip_ansi [of line] have "NL \<notin> set ?clean" by blast
  then have "length (filter (\<lambda>c. c = NL) ?clean) = 0"
    by (auto simp: filter_empty_conv)
  then have d: "?d \<le> length (filter (\<lambda>c. ch c = NL) (text_widget v))"
    by (simp add: buffer_size_def)
  from assms(1) have "append_line U v line stream = append_line_insert v ?clean ?tag"
    by (auto simp: append_line_def Let_def)
  then have "text_widget (append_line U v line stream) = drop_lines ?d (text_widget v @ ?new)"
    by (simp only: append_line_insert_text)
  also have "\<dots> = drop_lines ?d (text_widget v) @ ?new"
    using d by (rule drop_lines_append)
  finally have "buffer_text (append_line U v line stream)
      = map ch (drop_lines ?d (text_widget v)) @ ?clean @ [NL]"
    by (simp add: buffer_text_def comp_def)
  moreover have "suffix (map ch (drop_lines ?d (text_widget v))) (buffer_text v)"
    unfolding buffer_text_def by (intro map_mono_suffix suffix_drop_lines)
  ultimately show ?thesis by blast
qed

lemma untrimmed_filter_accepts:
  assumes U: "python_unicode U"
  shows "\<not> sublist (str_lower U (lit '' foo'')) (str_lower U (strip_ansi (lit ''foobar appeared'')))"
    and "buffer_text (append_line U ((init_viewer [])\<lparr>filter_var := lit '' foo''\<rparr>)
                  (lit ''foobar appeared'') ''stdout'')
     = lit ''foobar appeared'' @ [NL]"
proof -
  have f: "list_all is_ascii (lit '' foo'')" and l: "list_all is_ascii (lit ''foobar appeared'')"
    by (simp_all add: is_ascii_def lit_def cp_def)
  from U f have "str_lower U (lit '' foo'') = str_lower ascii_unicode (lit '' foo'')"
    by (simp add: str_lower_ascii ascii_unicode_def)
  moreover from U l have "str_lower U (strip_ansi (lit ''foobar appeared''))
      = str_lower ascii_unicode (strip_ansi (lit ''foobar appeared''))"
    by (simp add: str_lower_ascii is_ascii_strip_ansi ascii_unicode_def)
  moreover have "\<not> sublist (str_lower ascii_unicode (lit '' foo''))
      (str_lower ascii_unicode (strip_ansi (lit ''foobar appeared'')))"
    by (simp add: append_eval)
  ultimately show "\<not> sublist (str_lower U (lit '' foo''))
      (str_lower U (strip_ansi (lit ''foobar appeared'')))"
    by simp
  from f have "list_all is_ascii (filter_var ((init_viewer [])\<lparr>filter_var := lit '' foo''\<rparr>))"
    by simp
  with U have "append_line U ((init_viewer [])\<lparr>filter_var := lit '' foo''\<rparr>)
        (lit ''foobar appeared'') ''stdout''
      = append_line ascii_unicode ((init_viewer [])\<lparr>filter_var := lit '' foo''\<rparr>)
        (lit ''foobar appeared'') ''stdout''"
    using l by (rule append_line_ascii)
  moreover have "buffer_text (append_line ascii_unicode
        ((init_viewer [])\<lparr>filter_var := lit '' foo''\<rparr>) (lit ''foobar appeared'') ''stdout'')
      = lit ''foobar appeared'' @ [NL]"
    by (simp add: append_eval)
  ultimately show "buffer_text (append_line U ((init_viewer [])\<lparr>filter_var := lit '' foo''\<rparr>)
        (lit ''foobar appeared'') ''stdout'')
      = lit ''foobar appeared'' @ [NL]"
    by simp
qed

text \<open>
  C5, as the specification words it: with an active filter a line enters the buffer
  exactly when the filter is a case-insensitive substring of the cleaned line. The code
  trims the filter first: with the filter \<^verbatim>\<open> foo\<close> (a space, then foo) the line
  \<^verbatim>\<open>foobar appeared\<close> enters the buffer although the filter is no substring of it.
  Filter and line are ASCII, where all tables with the properties of Python's give the
  same.
\<close>

theorem append_line_filter_counterexample:
  "\<not> sublist (str_lower ascii_unicode (lit '' foo''))
        (str_lower ascii_unicode (strip_ansi (lit ''foobar appeared''))) \<and>
   buffer_text (append_line ascii_unicode ((init_viewer [])\<lparr>filter_var := lit '' foo''\<rparr>)
                  (lit ''foobar appeared'') ''stdout'')
     = lit ''foobar appeared'' @ [NL]"
  using untrimmed_filter_accepts [OF python_unicode_ascii] by simp

text \<open>
  C5, amended. When the filter text, which is the filter trimmed of white space at both
  ends and lowered, is not empty, a line enters the buffer if and only if the filter
  text is a substring of the lowered cleaned line: if it is not, the viewer is left as
  it was; if it is, the cleaned line becomes the last line of the buffer, behind what is
  kept of the earlier lines. With the filter \<^verbatim>\<open>foo\<close> the line \<^verbatim>\<open>foobar appeared\<close> is
  accepted, in any mix of cases, and \<^verbatim>\<open>bar appeared\<close> is dropped.
\<close>

theorem append_line_filter:
  "(str_lower U (str_strip (filter_var v)) \<noteq> []
      \<and> \<not> sublist (str_lower U (str_strip (filter_var v))) (str_lower U (strip_ansi line))
     \<longrightarrow> append_line U v line stream = v) \<and>
   (str_lower U (str_strip (filter_var v)) \<noteq> []
      \<and> sublist (str_lower U (str_strip (filter_var v))) (str_lower U (strip_ansi line))
      \<and> NL \<notin> set line
     \<longrightarrow> (\<exists>kept. suffix kept (buffer_text v)
           \<and> buffer_text (append_line U v line stream) = kept @ strip_ansi line @ [NL])) \<and>
   (python_unicode U \<and> filter_var v = lit ''foo''
     \<longrightarrow> append_line U v (lit ''bar appeared'') stream = v
       \<and> (\<exists>kept. suffix kept (buffer_text v)
            \<and> buffer_text (append_line U v (lit ''foobar appeared'') stream)
                = kept @ lit ''foobar appeared'' @ [NL])
       \<and> (\<exists>kept. suffix kept (buffer_text v)
            \<and> buffer_text (append_line U v (lit ''FooBar Appeared'') stream)
                = kept @ lit ''FooBar Appeared'' @ [NL]))"
proof (intro conjI impI)
  assume "str_lower U (str_strip (filter_var v)) \<noteq> []
      \<and> \<not> sublist (str_lower U (str_strip (filter_var v))) (str_lower U (strip_ansi line))"
  then show "append_line U v line stream = v"
    by (simp add: append_line_dropped)
next
  assume "str_lower U (str_strip (filter_var v)) \<noteq> []
      \<and> sublist (str_lower U (str_strip (filter_var v))) (str_lower U (strip_ansi line))
      \<and> NL \<notin> set line"
  then show "\<exists>kept. suffix kept (buffer_text v)
           \<and> buffer_text (append_line U v line stream) = kept @ strip_ansi line @ [NL]"
    by (intro append_line_accepted) simp_all
next
  assume h: "python_unicode U \<and> filter_var v = lit ''foo''"
  have "list_all is_ascii (str_strip (lit ''foo''))"
    by (intro is_ascii_strip) (simp add: is_ascii_def lit_def cp_def)
  with h have "str_lower U (str_strip (filter_var v)) = map ascii_lower (str_strip (lit ''foo''))"
    by (simp add: str_lower_ascii)
  also have "\<dots> = lit ''foo''"
    by (simp add: append_eval)
  finally have s: "str_lower U (str_strip (filter_var v)) = lit ''foo''" .
  have "list_all is_ascii (strip_ansi (lit ''bar appeared''))"
    by (intro is_ascii_strip_ansi) (simp add: is_ascii_def lit_def cp_def)
  with h have "str_lower U (strip_ansi (lit ''bar appeared''))
      = map ascii_lower (strip_ansi (lit ''bar appeared''))"
    by (simp add: str_lower_ascii)
  also have "\<not> sublist (lit ''foo'') \<dots>"
    by (simp add: append_eval)
  finally have "\<not> sublist (lit ''foo'') (str_lower U (strip_ansi (lit ''bar appeared'')))" .
  with s show "append_line U v (lit ''bar appeared'') stream = v"
    by (intro append_line_dropped) (simp_all add: lit_def)
next
  assume h: "python_unicode U \<and> filter_var v = lit ''foo''"
  have "list_all is_ascii (str_strip (lit ''foo''))"
    by (intro is_ascii_strip) (simp add: is_ascii_def lit_def cp_def)
  with h have "str_lower U (str_strip (filter_var v)) = map ascii_lower (str_strip (lit ''foo''))"
    by (simp add: str_lower_ascii)
  also have "\<dots> = lit ''foo''"
    by (simp add: append_eval)
  finally have s: "str_lower U (str_strip (filter_var v)) = lit ''foo''" .
  have c: "strip_ansi (lit ''foobar appeared'') = lit ''foobar appeared''"
    by (simp add: append_eval)
  have "list_all is_ascii (lit ''foobar appeared'')"
    by (simp add: is_ascii_def lit_def cp_def)
  with h have "str_lower U (lit ''foobar appeared'') = map ascii_lower (lit ''foobar appeared'')"
    by (simp add: str_lower_ascii)
  also have "sublist (lit ''foo'') \<dots>"
    by (simp add: append_eval)
  finally have "sublist (lit ''foo'') (str_lower U (strip_ansi (lit ''foobar appeared'')))"
    unfolding c .
  moreover have "NL \<notin> set (lit ''foobar appeared'')"
    by (simp add: NL_def lit_def cp_def)
  ultimately show "\<exists>kept. suffix kept (buffer_text v)
            \<and> buffer_text (append_line U v (lit ''foobar appeared'') stream)
                = kept @ lit ''foobar appeared'' @ [NL]"
    using append_line_accepted [of U v "lit ''foobar appeared''" stream] s c by simp
next
  assume h: "python_unicode U \<and> filter_var v = lit ''foo''"
  have "list_all is_ascii (str_strip (lit ''foo''))"
    by (intro is_ascii_strip) (simp add: is_ascii_def lit_def cp_def)
  with h have "str_lower U (str_strip (filter_var v)) = map ascii_lower (str_strip (lit ''foo''))"
    by (simp add: str_lower_ascii)
  also have "\<dots> = lit ''foo''"
    by (simp add: append_eval)
  finally have s: "str_lower U (str_strip (filter_var v)) = lit ''foo''" .
  have c: "strip_ansi (lit ''FooBar Appeared'') = lit ''FooBar Appeared''"
    by (simp add: append_eval)
  have "list_all is_ascii (lit ''FooBar Appeared'')"
    by (simp add: is_ascii_def lit_def cp_def)
  with h have "str_lower U (lit ''FooBar Appeared'') = map ascii_lower (lit ''FooBar Appeared'')"
    by (simp add: str_lower_ascii)
  also have "sublist (lit ''foo'') \<dots>"
    by (simp add: append_eval)
  finally have "sublist (lit ''foo'') (str_lower U (strip_ansi (lit ''FooBar Appeared'')))"
    unfolding c .
  moreover have "NL \<notin> set (lit ''FooBar Appeared'')"
    by (simp add: NL_def lit_def cp_def)
  ultimately show "\<exists>kept. suffix kept (buffer_text v)
            \<and> buffer_text (append_line U v (lit ''FooBar Appeared'') stream)
                = kept @ lit ''FooBar Appeared'' @ [NL]"
    using append_line_accepted [of U v "lit ''FooBar Appeared''" stream] s c by simp
qed

theorem append_line_filter_witness:
  "str_lower ascii_unicode
     (str_strip (filter_var ((init_viewer [])\<lparr>filter_var := lit '' Foo ''\<rparr>))) \<noteq> [] \<and>
   \<not> sublist (str_lower ascii_unicode
                 (str_strip (filter_var ((init_viewer [])\<lparr>filter_var := lit '' Foo ''\<rparr>))))
        (str_lower ascii_unicode (strip_ansi (lit ''bar appeared''))) \<and>
   append_line ascii_unicode ((init_viewer [])\<lparr>filter_var := lit '' Foo ''\<rparr>)
       (lit ''bar appeared'') ''stdout''
     = (init_viewer [])\<lparr>filter_var := lit '' Foo ''\<rparr> \<and>
   sublist (str_lower ascii_unicode
              (str_strip (filter_var ((init_viewer [])\<lparr>filter_var := lit '' Foo ''\<rparr>))))
        (str_lower ascii_unicode (strip_ansi (lit ''foobar appeared''))) \<and>
   NL \<notin> set (lit ''foobar appeared'') \<and>
   (\<exists>kept. suffix kept (buffer_text ((init_viewer [])\<lparr>filter_var := lit '' Foo ''\<rparr>))
      \<and> buffer_text (append_line ascii_unicode ((init_viewer [])\<lparr>filter_var := lit '' Foo ''\<rparr>)
                        (lit ''foobar appeared'') ''stdout'')
          = kept @ strip_ansi (lit ''foobar appeared'') @ [NL]) \<and>
   python_unicode ascii_unicode \<and>
   filter_var ((init_viewer [])\<lparr>filter_var := lit ''foo''\<rparr>) = lit ''foo'' \<and>
   append_line ascii_unicode ((init_viewer [])\<lparr>filter_var := lit ''foo''\<rparr>)
       (lit ''bar appeared'') ''stdout''
     = (init_viewer [])\<lparr>filter_var := lit ''foo''\<rparr>"
proof -
  let ?v = "(init_viewer [])\<lparr>filter_var := lit '' Foo ''\<rparr>"
  let ?w = "(init_viewer [])\<lparr>filter_var := lit ''foo''\<rparr>"
  have s: "str_lower ascii_unicode (str_strip (filter_var ?v)) = lit ''foo''"
    by (simp add: append_eval)
  have a: "str_lower ascii_unicode (str_strip (filter_var ?v)) \<noteq> []"
    unfolding s by (simp add: lit_def)
  have b: "\<not> sublist (str_lower ascii_unicode (str_strip (filter_var ?v)))
      (str_lower ascii_unicode (strip_ansi (lit ''bar appeared'')))"
    unfolding s by (simp add: append_eval)
  have c: "sublist (str_lower ascii_unicode (str_strip (filter_var ?v)))
      (str_lower ascii_unicode (strip_ansi (lit ''foobar appeared'')))"
    unfolding s by (simp add: append_eval)
  have d: "NL \<notin> set (lit ''foobar appeared'')"
    by (simp add: NL_def lit_def cp_def)
  have e: "filter_var ?w = lit ''foo''"
    by simp
  have t1: "append_line ascii_unicode ?v (lit ''bar appeared'') ''stdout'' = ?v"
    using a b append_line_filter [of ascii_unicode ?v "lit ''bar appeared''" "''stdout''"]
    by (elim conjE) simp
  have t2: "\<exists>kept. suffix kept (buffer_text ?v)
      \<and> buffer_text (append_line ascii_unicode ?v (lit ''foobar appeared'') ''stdout'')
          = kept @ strip_ansi (lit ''foobar appeared'') @ [NL]"
    using a c d append_line_filter [of ascii_unicode ?v "lit ''foobar appeared''" "''stdout''"]
    by (elim conjE) simp
  have t3: "append_line ascii_unicode ?w (lit ''bar appeared'') ''stdout'' = ?w"
    using python_unicode_ascii e
      append_line_filter [of ascii_unicode ?w "lit ''bar appeared''" "''stdout''"]
    by (elim conjE) simp
  from a b c d e t1 t2 t3 python_unicode_ascii show ?thesis by blast
qed

text \<open>
  C9. Copying with nothing selected is ignored: reading the selection raises the
  \<^verbatim>\<open>TclError\<close>, the handler swallows it, no error leaves \<^verbatim>\<open>copy_selection\<close>, and the
  viewer with its buffer, selection and clipboard is what it was.
\<close>

theorem copy_selection_empty:
  "selection_empty v \<Longrightarrow>
     text_get_sel v = Inl TclError \<and> copy_selection v = Inr v"
proof -
  assume "selection_empty v"
  then have "\<not> list_ex is_selected (text_widget v @ [\<lparr>ch = NL, tags = end_tags v\<rparr>])"
    by (simp add: selection_empty_def is_selected_def list_ex_iff)
  then have g: "text_get_sel v = Inl TclError"
    by (simp add: text_get_sel_def Let_def)
  then have "copy_selection v = Inr v"
    by (simp add: copy_selection_def copy_selection_try_def)
  with g show ?thesis by simp
qed

theorem copy_selection_empty_witness:
  "selection_empty ((init_viewer (lit ''kept''))\<lparr>text_widget := entry (lit ''ready'') ''success''\<rparr>) \<and>
   text_get_sel ((init_viewer (lit ''kept''))\<lparr>text_widget := entry (lit ''ready'') ''success''\<rparr>)
     = Inl TclError \<and>
   copy_selection ((init_viewer (lit ''kept''))\<lparr>text_widget := entry (lit ''ready'') ''success''\<rparr>)
     = Inr ((init_viewer (lit ''kept''))\<lparr>text_widget := entry (lit ''ready'') ''success''\<rparr>)"
proof -
  have a: "selection_empty
      ((init_viewer (lit ''kept''))\<lparr>text_widget := entry (lit ''ready'') ''success''\<rparr>)"
    by (simp add: selection_empty_def is_selected_def entry_def init_viewer_def lit_def)
  from a copy_selection_empty [OF a] show ?thesis by simp
qed

section \<open>The tail thread\<close>











lemma written_turns: "written (replicate n (Turn io)) = []"
  by (induction n) simp_all














end
